theory Spec2Isabelle
  imports Main "HOL-Library.Word"
begin

unbundle bit_operations_syntax

section \<open>The odds library: data model\<close>

text \<open>
  The header \<open>ayejay/odds.hpp\<close> works on \<open>std::uint64_t\<close> throughout; the bounded
  sampler is a template over an unsigned integer type \<open>UInt\<close>, modelled as a word of
  any length \<open>'a\<close>. Unsigned arithmetic wraps, as word arithmetic does.
\<close>

type_synonym u64 = "64 word"
type_synonym u32 = "32 word"
type_synonym u128 = "128 word"

text \<open>\<open>rotl64(x, k) = (x << k) | (x >> (64 - k))\<close>; the header calls it with
  \<open>k = 7\<close> and \<open>k = 45\<close> on the generator.\<close>

definition rotl64 :: "u64 \<Rightarrow> nat \<Rightarrow> u64" where
  "rotl64 x k = push_bit k x OR drop_bit (64 - k) x"

subsection \<open>splitmix64, the seeding generator\<close>

record splitmix64 =
  state :: u64

text \<open>The constructor \<open>splitmix64(seed)\<close> stores the seed as the state.\<close>

definition splitmix64_init :: "u64 \<Rightarrow> splitmix64" where
  "splitmix64_init seed = \<lparr>state = seed\<rparr>"

text \<open>\<open>splitmix64::next_u64\<close>: the state is advanced by the constant, then mixed.
  The result is the output together with the updated generator.\<close>

definition sm_next_u64 :: "splitmix64 \<Rightarrow> u64 \<times> splitmix64" where
  "sm_next_u64 sm =
     (let sm = sm\<lparr>state := state sm + 0x9E3779B97F4A7C15\<rparr>;
          z = state sm;
          z = (z XOR drop_bit 30 z) * 0xBF58476D1CE4E5B9;
          z = (z XOR drop_bit 27 z) * 0x94D049BB133111EB
      in (z XOR drop_bit 31 z, sm))"

subsection \<open>xoshiro256**, the generator\<close>

text \<open>The state \<open>std::array<std::uint64_t, 4> s\<close>, one field per element.\<close>

record xoshiro256ss =
  s0 :: u64
  s1 :: u64
  s2 :: u64
  s3 :: u64

text \<open>The default member initialiser of \<open>s\<close>.\<close>

definition xoshiro256ss_default :: xoshiro256ss where
  "xoshiro256ss_default =
     \<lparr>s0 = 0x123456789ABCDEF0, s1 = 0xCAFEBABEDEADC0DE,
      s2 = 0x0F1E2D3C4B5A6978, s3 = 0x1122334455667788\<rparr>"

definition seed_with :: "xoshiro256ss \<Rightarrow> u64 \<Rightarrow> xoshiro256ss" where
  "seed_with g seed =
     (let sm = splitmix64_init seed;
          (a, sm) = sm_next_u64 sm; g = g\<lparr>s0 := a\<rparr>;
          (b, sm) = sm_next_u64 sm; g = g\<lparr>s1 := b\<rparr>;
          (c, sm) = sm_next_u64 sm; g = g\<lparr>s2 := c\<rparr>;
          (d, sm) = sm_next_u64 sm; g = g\<lparr>s3 := d\<rparr>
      in if (s0 g OR s1 g OR s2 g OR s3 g) = 0
         then g\<lparr>s0 := 0x9E3779B97F4A7C15, s1 := 0xBF58476D1CE4E5B9,
                s2 := 0x94D049BB133111EB, s3 := 0xD1B54A32D192ED03\<rparr>
         else g)"

text \<open>The converting constructor \<open>xoshiro256ss(seed)\<close>.\<close>

definition xoshiro256ss_init :: "u64 \<Rightarrow> xoshiro256ss" where
  "xoshiro256ss_init seed = seed_with xoshiro256ss_default seed"

definition next_u64 :: "xoshiro256ss \<Rightarrow> u64 \<times> xoshiro256ss" where
  "next_u64 g =
     (let result = rotl64 (s1 g * 5) 7 * 9;
          t = push_bit 17 (s1 g);
          g = g\<lparr>s2 := s2 g XOR s0 g\<rparr>;
          g = g\<lparr>s3 := s3 g XOR s1 g\<rparr>;
          g = g\<lparr>s1 := s1 g XOR s2 g\<rparr>;
          g = g\<lparr>s0 := s0 g XOR s3 g\<rparr>;
          g = g\<lparr>s2 := s2 g XOR t\<rparr>;
          g = g\<lparr>s3 := rotl64 (s3 g) 45\<rparr>
      in (result, g))"

definition next_u32 :: "xoshiro256ss \<Rightarrow> u32 \<times> xoshiro256ss" where
  "next_u32 g = (let (x, g) = next_u64 g in (ucast (drop_bit 32 x), g))"

text \<open>The state after a draw, and after \<open>n\<close> draws.\<close>

definition advance :: "xoshiro256ss \<Rightarrow> xoshiro256ss" where
  "advance g = snd (next_u64 g)"

definition all_zero :: "xoshiro256ss \<Rightarrow> bool" where
  "all_zero g \<longleftrightarrow> s0 g = 0 \<and> s1 g = 0 \<and> s2 g = 0 \<and> s3 g = 0"

subsection \<open>The bounded sampler\<close>

text \<open>
  The body of the rejection loop is chosen by the preprocessor: the \<open>__uint128_t\<close>
  product, the MSVC intrinsic \<open>_umul128\<close>, or the portable comparison against the
  largest multiple of the bound.
\<close>

datatype mul_path = Int128 | Umul128 | Portable

text \<open>\<open>_umul128(x, b, &hi)\<close> returns the low half of the 128-bit product and stores
  the high half.\<close>

definition umul128 :: "u64 \<Rightarrow> u64 \<Rightarrow> u64 \<times> u64" where
  "umul128 x b = (word_of_nat (unat x * unat b), word_of_nat (unat x * unat b div 2 ^ 64))"

definition uint64_max :: u64 where
  "uint64_max = 0xFFFFFFFFFFFFFFFF"

text \<open>One pass through the loop body after the draw \<open>x\<close>: the returned value when the
  draw is accepted, \<open>None\<close> when the loop goes round again.\<close>

fun try_draw :: "mul_path \<Rightarrow> u64 \<Rightarrow> u64 \<Rightarrow> u64 \<Rightarrow> 'a::len word option" where
  "try_draw Int128 b threshold x =
     (let m = (ucast x :: u128) * (ucast b :: u128);
          l = (ucast m :: u64)
      in if l \<ge> threshold then Some (ucast (drop_bit 64 m)) else None)"
| "try_draw Umul128 b threshold x =
     (let (lo, hi) = umul128 x b
      in if lo \<ge> threshold then Some (ucast hi) else None)"
| "try_draw Portable b threshold x =
     (let limit = (uint64_max div b) * b
      in if x < limit then Some (ucast (x mod b)) else None)"

text \<open>The loop \<open>for (;;)\<close>: it returns at the first accepted draw, and may in
  principle draw for ever, which is the value \<open>None\<close>.\<close>

partial_function (option) rejection_loop ::
  "mul_path \<Rightarrow> u64 \<Rightarrow> u64 \<Rightarrow> xoshiro256ss \<Rightarrow> ('a::len word \<times> xoshiro256ss) option" where
  "rejection_loop p b threshold rng =
     (case next_u64 rng of (x, rng') \<Rightarrow>
        (case try_draw p b threshold x of
           Some r \<Rightarrow> Some (r, rng')
         | None \<Rightarrow> rejection_loop p b threshold rng'))"

text \<open>\<open>uniform_bounded<UInt>(rng, bound)\<close>. The casts
  \<open>static_cast<std::uint64_t>(bound)\<close> and \<open>static_cast<UInt>(...)\<close> are
  \<open>ucast\<close>; the threshold is computed once, before the loop.\<close>

definition uniform_bounded ::
  "mul_path \<Rightarrow> xoshiro256ss \<Rightarrow> 'a::len word \<Rightarrow> ('a word \<times> xoshiro256ss) option" where
  "uniform_bounded p rng bound =
     (if bound = 0 then Some (0, rng)
      else if bound AND (bound - 1) = 0
      then (let (x, rng) = next_u64 rng
            in Some (ucast (x AND ((ucast bound :: u64) - 1)), rng))
      else (let b = (ucast bound :: u64);
                threshold = (0 - b) mod b
            in rejection_loop p b threshold rng))"

subsection \<open>The probability checks\<close>

definition one_in :: "mul_path \<Rightarrow> xoshiro256ss \<Rightarrow> 'a::len word \<Rightarrow> (bool \<times> xoshiro256ss) option" where
  "one_in p rng bound =
     (if bound \<le> 1 then Some (True, rng)
      else map_option (\<lambda>(v, rng). (v = 0, rng)) (uniform_bounded p rng bound))"

text \<open>\<open>one_in_t<N>::operator()(rng)\<close>. The template refuses \<open>N = 0\<close> at compile
  time (\<open>static_assert(N >= 1)\<close>), so only \<open>N \<ge> 1\<close> is ever instantiated.\<close>

definition one_in_t :: "mul_path \<Rightarrow> u32 \<Rightarrow> xoshiro256ss \<Rightarrow> (bool \<times> xoshiro256ss) option" where
  "one_in_t p N rng =
     (if N = 1 then Some (True, rng)
      else map_option (\<lambda>(v, rng). (v = 0, rng)) (uniform_bounded p rng N))"

text \<open>What a single draw \<open>x\<close> yields for a non-zero bound: the masked draw on the
  power-of-two path, the loop body's verdict otherwise.\<close>

definition draw_result :: "mul_path \<Rightarrow> 'a::len word \<Rightarrow> u64 \<Rightarrow> 'a word option" where
  "draw_result p bound x =
     (if bound AND (bound - 1) = 0
      then Some (ucast (x AND ((ucast bound :: u64) - 1)))
      else try_draw p (ucast bound) ((0 - ucast bound) mod ucast bound) x)"

text \<open>The number of the \<open>2^64\<close> possible draws that are accepted and mapped to \<open>v\<close>.\<close>

definition accept_count :: "mul_path \<Rightarrow> 'a::len word \<Rightarrow> 'a word \<Rightarrow> nat" where
  "accept_count p bound v = card {x :: u64. draw_result p bound x = Some v}"

subsection \<open>Notions used to state the properties\<close>

text \<open>A bound of type \<open>UInt\<close> is a power of two.\<close>

definition is_pow2 :: "'a::len word \<Rightarrow> bool" where
  "is_pow2 b \<longleftrightarrow> (\<exists>k \<in> {..<LENGTH('a)}. b = 2 ^ k)"

text \<open>The additive constant of \<open>splitmix64\<close> and the mixing applied to the
  advanced state: two xor-shift-multiply rounds and a closing xor-shift.\<close>

definition gamma :: u64 where
  "gamma = 0x9E3779B97F4A7C15"

definition avalanche :: "u64 \<Rightarrow> u64" where
  "avalanche z =
     (let z = (z XOR drop_bit 30 z) * 0xBF58476D1CE4E5B9;
          z = (z XOR drop_bit 27 z) * 0x94D049BB133111EB
      in z XOR drop_bit 31 z)"

text \<open>The fixed state that \<open>seed_with\<close> substitutes for an all-zero one.\<close>

definition fallback_state :: xoshiro256ss where
  "fallback_state =
     \<lparr>s0 = 0x9E3779B97F4A7C15, s1 = 0xBF58476D1CE4E5B9,
      s2 = 0x94D049BB133111EB, s3 = 0xD1B54A32D192ED03\<rparr>"

text \<open>The fallback of the specification, in its words: a draw \<open>x\<close> is accepted only
  if \<open>x < floor(2^64 / bound) * bound\<close>, and then \<open>x mod bound\<close> is returned.\<close>

definition fallback_spec :: "'a::len word \<Rightarrow> u64 \<Rightarrow> 'a word option" where
  "fallback_spec bound x =
     (if unat x < (2 ^ 64 div unat bound) * unat bound
      then Some (word_of_nat (unat x mod unat bound)) else None)"

section \<open>Facts about words and counting\<close>

lemma u64_lt: "unat (x :: u64) < 2 ^ 64"
  using unsigned_less[of x, where 'a = nat] by simp

lemma xor_zero_eq: "(a :: u64) XOR b = 0 \<Longrightarrow> a = b"
  by (metis xor.right_neutral xor.left_commute xor_self_eq)

lemma rotl64_45_zero:
  assumes "rotl64 x 45 = 0" shows "x = 0"
proof (rule bit_eqI)
  fix n
  from assms have a: "push_bit 45 x = 0" and b: "drop_bit 19 x = 0"
    by (simp_all add: rotl64_def or_eq_0_iff)
  have "\<not> bit x n"
  proof (cases "n < 19")
    case True
    from a have "\<not> bit (push_bit 45 x) (n + 45)" by simp
    then show ?thesis using True by (simp add: bit_push_bit_iff)
  next
    case False
    from b have "\<not> bit (drop_bit 19 x) (n - 19)" by simp
    then show ?thesis using False by (simp add: bit_drop_bit_eq)
  qed
  then show "bit x n \<longleftrightarrow> bit (0 :: u64) n" by simp
qed

lemma shift17_fixed:
  assumes "(x::u64) XOR push_bit 17 x = 0" shows "x = 0"
proof -
  have e: "bit x n = bit (push_bit 17 x) n" for n
  proof -
    have "\<not> bit (x XOR push_bit 17 x) n" using assms by simp
    then show ?thesis by (simp add: bit_xor_iff)
  qed
  have "\<not> bit x n" for n
  proof (induction n rule: less_induct)
    case (less n)
    show ?case
    proof
      assume "bit x n"
      then have "bit (push_bit 17 x) n" using e by simp
      then have "17 \<le> n" and "bit x (n - 17)" by (simp_all add: bit_push_bit_iff)
      with less[of "n - 17"] show False by simp
    qed
  qed
  then show ?thesis by (simp add: bit_eq_iff)
qed

text \<open>The test \<open>(bound & (bound - 1)) == 0\<close> recognises exactly the powers of two
  among the non-zero bounds.\<close>

lemma pow2_and: "(2 ^ k :: 'a::len word) AND (2 ^ k - 1) = 0"
proof -
  have "(2 ^ k :: 'a word) AND mask k = 0"
    by (rule bit_eqI) (auto simp: bit_and_iff bit_exp_iff bit_mask_iff)
  then show ?thesis by (simp only: mask_eq_exp_minus_1)
qed

lemma nat_pow2_char: "0 < b \<Longrightarrow> (b::nat) AND (b - 1) = 0 \<Longrightarrow> \<exists>k. b = 2 ^ k"
proof (induction b rule: less_induct)
  case (less b)
  show ?case
  proof (cases "even b")
    case True
    then obtain c where c: "b = 2 * c" by (elim evenE)
    with less.prems have c0: "0 < c" by simp
    have "b - 1 = 2 * (c - 1) + 1" using c c0 by simp
    then have "b AND (b - 1) = 2 * (c AND (c - 1))"
      using c by (subst and_nat_rec) simp
    with less.prems have "c AND (c - 1) = 0" by simp
    with less.IH[of c] c c0 obtain k where "c = 2 ^ k" by auto
    with c have "b = 2 ^ Suc k" by simp
    then show ?thesis by blast
  next
    case False
    then obtain c where c: "b = 2 * c + 1" by (elim oddE)
    have "b AND (b - 1) = 2 * c"
      using c by (subst and_nat_rec) simp
    with less.prems have "c = 0" by simp
    with c have "b = 2 ^ 0" by simp
    then show ?thesis by blast
  qed
qed

lemma word_pow2_char:
  fixes b :: "'a::len word"
  assumes "b \<noteq> 0" "b AND (b - 1) = 0"
  shows "\<exists>k<LENGTH('a). b = 2 ^ k"
proof -
  have pos: "0 < unat b" using assms(1) by (simp add: unat_gt_0)
  have "unat (b AND (b - 1)) = unat b AND (unat b - 1)"
    using assms(1) by (simp add: unsigned_and_eq unat_minus_one)
  with assms(2) have "unat b AND (unat b - 1) = 0" by simp
  with pos obtain k where k: "unat b = 2 ^ k" using nat_pow2_char by blast
  have "unat b < 2 ^ LENGTH('a)" by (rule unsigned_less)
  with k have "k < LENGTH('a)" by simp
  moreover have "b = 2 ^ k"
  proof -
    have "b = word_of_nat (unat b)" by simp
    also have "\<dots> = 2 ^ k" by (simp only: k) simp
    finally show ?thesis .
  qed
  ultimately show ?thesis by blast
qed

lemma is_pow2_iff: "is_pow2 b \<longleftrightarrow> b \<noteq> 0 \<and> b AND (b - 1) = 0"
proof
  assume "is_pow2 b"
  then obtain k where k: "k < LENGTH('a)" "b = 2 ^ k" by (auto simp: is_pow2_def)
  then show "b \<noteq> 0 \<and> b AND (b - 1) = 0" by (simp add: pow2_and)
next
  assume "b \<noteq> 0 \<and> b AND (b - 1) = 0"
  then show "is_pow2 b" using word_pow2_char[of b] by (auto simp: is_pow2_def)
qed

section \<open>The generator state is never all-zero\<close>

lemma advance_fields:
  "s0 (advance g) = s0 g XOR (s3 g XOR s1 g)"
  "s1 (advance g) = s1 g XOR (s2 g XOR s0 g)"
  "s2 (advance g) = (s2 g XOR s0 g) XOR push_bit 17 (s1 g)"
  "s3 (advance g) = rotl64 (s3 g XOR s1 g) 45"
  by (simp_all add: advance_def next_u64_def Let_def)

lemma advance_all_zero:
  assumes "all_zero (advance g)" shows "all_zero g"
proof -
  from assms have z: "s0 (advance g) = 0" "s1 (advance g) = 0"
      "s2 (advance g) = 0" "s3 (advance g) = 0"
    by (simp_all add: all_zero_def)
  from z(4) have "s3 g XOR s1 g = 0" by (simp only: advance_fields rotl64_45_zero)
  then have e31: "s3 g = s1 g" by (rule xor_zero_eq)
  from z(1) have a0: "s0 g = 0" by (simp add: advance_fields e31)
  from z(2) have "s1 g XOR s2 g = 0" by (simp add: advance_fields a0)
  then have e12: "s2 g = s1 g" by (rule xor_zero_eq[symmetric])
  from z(3) have "s1 g XOR push_bit 17 (s1 g) = 0" by (simp add: advance_fields a0 e12)
  then have "s1 g = 0" by (rule shift17_fixed)
  with a0 e12 e31 show ?thesis by (simp add: all_zero_def)
qed

lemma seed_with_not_all_zero: "\<not> all_zero (seed_with g seed)"
  by (simp add: seed_with_def all_zero_def Let_def or_eq_0_iff split: prod.splits)

lemma advance_pow_not_all_zero: "\<not> all_zero g \<Longrightarrow> \<not> all_zero ((advance ^^ n) g)"
  by (induction n) (auto dest: advance_all_zero)

text \<open>Concrete runs used below: the default stream, and the stream seeded with 1337 as in
  the example program.\<close>

lemma seeded_1337:
  "seed_with xoshiro256ss_default 1337 =
     \<lparr>s0 = 13161956497586561035, s1 = 14663483216071361993,
      s2 = 3765287255879986010, s3 = 8575537320440087138\<rparr>"
  by (simp add: seed_with_def sm_next_u64_def splitmix64_init_def xoshiro256ss_default_def Let_def)

lemma draw_1337:
  "next_u64 \<lparr>s0 = 13161956497586561035, s1 = 14663483216071361993,
             s2 = 3765287255879986010, s3 = 8575537320440087138\<rparr> =
     (12468955128717782748,
      \<lparr>s0 = 780789842307147680, s1 = 5302844761966939800,
       s2 = 15167730814454631249, s3 = 4104318094312297255\<rparr>)"
  by (simp add: next_u64_def rotl64_def Let_def)

lemma draw_default:
  "next_u64 xoshiro256ss_default =
     (7163475013842208595,
      \<lparr>s0 = 14549124345952168358, s1 = 15552268692959754070,
       s2 = 7518695940712740744, s3 = 8568902564790096249\<rparr>)"
  by (simp add: next_u64_def xoshiro256ss_default_def rotl64_def Let_def)

text \<open>The seeding written out: the four mixer outputs, replaced by the fixed state
  when all of them are zero.\<close>

lemma sm_next_u64_eq:
  "sm_next_u64 sm = (avalanche (state sm + gamma), sm\<lparr>state := state sm + gamma\<rparr>)"
  by (simp add: sm_next_u64_def avalanche_def gamma_def Let_def)

lemma seed_with_eq:
  "seed_with g seed =
     (let a = avalanche (seed + gamma); b = avalanche (seed + 2 * gamma);
          c = avalanche (seed + 3 * gamma); d = avalanche (seed + 4 * gamma)
      in if a OR b OR c OR d = 0 then fallback_state
         else \<lparr>s0 = a, s1 = b, s2 = c, s3 = d\<rparr>)"
  by (simp add: seed_with_def sm_next_u64_eq splitmix64_init_def fallback_state_def Let_def
      algebra_simps)

lemma fallback_state_not_all_zero: "\<not> all_zero fallback_state"
  by (simp add: all_zero_def fallback_state_def)

text \<open>
  C3. The generator state is never all-zero: \<open>seed_with\<close> leaves a state with a
  non-zero word for every seed (and whatever the state was before), because it replaces
  an all-zero mixer output by the fixed fallback state, which is not all-zero; one draw
  maps a state that is not all-zero to a state that is not all-zero, and so no number of
  draws after seeding reaches the all-zero state.
\<close>

theorem state_never_all_zero:
  "\<not> all_zero (seed_with g seed) \<and>
   (\<not> all_zero h \<longrightarrow> \<not> all_zero (snd (next_u64 h))) \<and>
   \<not> all_zero ((advance ^^ n) (seed_with g seed)) \<and>
   seed_with g seed =
     (let a = avalanche (seed + gamma); b = avalanche (seed + 2 * gamma);
          c = avalanche (seed + 3 * gamma); d = avalanche (seed + 4 * gamma)
      in if a OR b OR c OR d = 0 then fallback_state
         else \<lparr>s0 = a, s1 = b, s2 = c, s3 = d\<rparr>) \<and>
   \<not> all_zero fallback_state"
proof -
  have "\<not> all_zero h \<longrightarrow> \<not> all_zero (snd (next_u64 h))"
    using advance_all_zero[of h] by (auto simp: advance_def)
  then show ?thesis
    using seed_with_not_all_zero[of g seed] advance_pow_not_all_zero[of "seed_with g seed" n]
      seed_with_eq[of g seed] fallback_state_not_all_zero
    by blast
qed

theorem state_never_all_zero_witness:
  "\<not> all_zero (seed_with xoshiro256ss_default 1337) \<and>
   \<not> all_zero xoshiro256ss_default \<and>
   \<not> all_zero (snd (next_u64 xoshiro256ss_default)) \<and>
   \<not> all_zero ((advance ^^ 3) (seed_with xoshiro256ss_default 1337))"
proof -
  have h: "\<not> all_zero xoshiro256ss_default"
    by (simp add: all_zero_def xoshiro256ss_default_def)
  show ?thesis
    using h state_never_all_zero [of xoshiro256ss_default 1337 xoshiro256ss_default 3]
    by blast
qed

section \<open>The seed mixer\<close>

text \<open>
  C8. The seed mixer is a total function of the seed alone. One step of
  \<open>splitmix64\<close> adds the fixed constant \<open>gamma\<close>, which is odd, to the mixer state
  and returns the avalanche of the new state (xor-shift and multiply, twice, then a
  closing xor-shift). Seeding yields the avalanches of \<open>seed + gamma\<close>,
  \<open>seed + 2 gamma\<close>, \<open>seed + 3 gamma\<close> and \<open>seed + 4 gamma\<close> (or the fixed
  fallback state, were all four zero), whatever the generator held before.
\<close>

theorem seed_mixer_pure:
  "sm_next_u64 sm = (avalanche (state sm + gamma), sm\<lparr>state := state sm + gamma\<rparr>) \<and>
   odd gamma \<and>
   seed_with g seed =
     (let a = avalanche (seed + gamma); b = avalanche (seed + 2 * gamma);
          c = avalanche (seed + 3 * gamma); d = avalanche (seed + 4 * gamma)
      in if a OR b OR c OR d = 0 then fallback_state
         else \<lparr>s0 = a, s1 = b, s2 = c, s3 = d\<rparr>) \<and>
   seed_with g seed = seed_with g' seed"
proof -
  have "odd gamma" by (simp add: gamma_def)
  moreover have "seed_with g seed = seed_with g' seed" by (simp only: seed_with_eq)
  ultimately show ?thesis using sm_next_u64_eq[of sm] seed_with_eq[of g seed] by simp
qed

section \<open>Degenerate bounds\<close>

text \<open>
  C9. With \<open>bound = 0\<close> the sampler returns 0 and draws nothing: the generator is
  returned as it was, on every build of the loop body.
\<close>

theorem uniform_bounded_zero:
  "uniform_bounded p rng (0 :: 'a::len word) = Some (0, rng)"
  by (simp add: uniform_bounded_def)

text \<open>
  C10. With \<open>bound = 1\<close> the sampler takes the mask path: it returns 0 and the
  generator has made exactly one draw, whereas \<open>one_in\<close> with bound 1 answers true and
  leaves the generator as it was.
\<close>

theorem uniform_bounded_one:
  "uniform_bounded p rng (1 :: 'a::len word) = Some (0, snd (next_u64 rng)) \<and>
   one_in p rng (1 :: 'a::len word) = Some (True, rng)"
  by (simp add: uniform_bounded_def one_in_def split: prod.splits)

section \<open>The power-of-two path\<close>

text \<open>
  C5. For a bound that is a power of two the sampler returns one draw masked with
  \<open>bound - 1\<close>, and the generator has advanced by exactly that one draw: there is no
  loop on this path.
\<close>

theorem uniform_bounded_power_of_two:
  fixes bound :: "'a::len word"
  assumes "is_pow2 bound"
  shows "uniform_bounded p rng bound =
           Some (ucast (fst (next_u64 rng) AND ((ucast bound :: u64) - 1)), snd (next_u64 rng))"
  using assms by (simp add: is_pow2_iff uniform_bounded_def split: prod.splits)

theorem uniform_bounded_power_of_two_witness:
  "is_pow2 (8 :: u32) \<and>
   uniform_bounded Int128 xoshiro256ss_default (8 :: u32) =
     Some (3, \<lparr>s0 = 14549124345952168358, s1 = 15552268692959754070,
               s2 = 7518695940712740744, s3 = 8568902564790096249\<rparr>)"
proof -
  have h: "is_pow2 (8 :: u32)" by (simp add: is_pow2_iff)
  show ?thesis
    using h uniform_bounded_power_of_two [OF h, of Int128 xoshiro256ss_default]
    by (simp add: draw_default)
qed

section \<open>The probability checks\<close>

lemma uniform_bounded_37:
  "uniform_bounded Int128 (seed_with xoshiro256ss_default 1337) (37 :: u32) =
     Some (25, \<lparr>s0 = 780789842307147680, s1 = 5302844761966939800,
                s2 = 15167730814454631249, s3 = 4104318094312297255\<rparr>)"
  apply (simp add: uniform_bounded_def seeded_1337)
  apply (subst rejection_loop.simps)
  apply (simp add: draw_1337)
  done

text \<open>
  C2. \<open>one_in\<close> answers true for \<open>bound \<le> 1\<close> without drawing: the generator is
  returned unchanged. For \<open>bound > 1\<close> it answers true exactly when the bounded
  sampler returns 0, with the generator the sampler leaves (and it does not return
  when the sampler does not).
\<close>

theorem one_in_contract:
  "(bound \<le> 1 \<longrightarrow> one_in p rng bound = Some (True, rng)) \<and>
   (1 < bound \<longrightarrow>
      (case uniform_bounded p rng bound of
         None \<Rightarrow> one_in p rng bound = None
       | Some (v, rng') \<Rightarrow> one_in p rng bound = Some (v = 0, rng')))"
  by (auto simp: one_in_def split: option.splits)

theorem one_in_contract_witness:
  "(1 :: u32) \<le> 1 \<and> one_in Int128 xoshiro256ss_default (1 :: u32) = Some (True, xoshiro256ss_default) \<and>
   (1 :: u32) < 37 \<and>
   one_in Int128 (seed_with xoshiro256ss_default 1337) (37 :: u32) =
     Some (False, \<lparr>s0 = 780789842307147680, s1 = 5302844761966939800,
                   s2 = 15167730814454631249, s3 = 4104318094312297255\<rparr>)"
  using one_in_contract [of "1 :: u32" Int128 xoshiro256ss_default]
    one_in_contract [of "37 :: u32" Int128 "seed_with xoshiro256ss_default 1337"]
  by (simp add: uniform_bounded_37)

text \<open>
  C7. For every compile-time bound \<open>N \<ge> 1\<close> the specialisation \<open>one_in_t<N>\<close>
  gives the same answer and leaves the same generator state as the runtime
  \<open>one_in\<close> with the bound \<open>N\<close> as a \<open>uint32\<close>.
\<close>

theorem one_in_t_same:
  "1 \<le> N \<Longrightarrow> one_in_t p N rng = one_in p rng N"
  by (auto simp: one_in_t_def one_in_def dest: antisym)

theorem one_in_t_same_witness:
  "(1 :: u32) \<le> 100 \<and>
   one_in_t Int128 100 xoshiro256ss_default = one_in Int128 xoshiro256ss_default (100 :: u32)"
  using one_in_t_same [of 100 Int128 xoshiro256ss_default] by simp

section \<open>The rejection loop, one draw at a time\<close>

text \<open>The bound as a 64-bit value, the threshold, and the two halves of the wide product,
  read as natural numbers.\<close>

lemma unat_ucast_bound:
  fixes bound :: "'a::len word"
  assumes "LENGTH('a) \<le> 64"
  shows "unat (ucast bound :: u64) = unat bound"
proof -
  have "unat bound < 2 ^ LENGTH('a)" by (rule unsigned_less)
  also have "(2::nat) ^ LENGTH('a) \<le> 2 ^ 64" using assms by (intro power_increasing) simp_all
  finally show ?thesis by (simp add: unsigned_ucast_eq take_bit_nat_eq_self)
qed

lemma ucast_eq_0_iff:
  fixes bound :: "'a::len word"
  assumes "LENGTH('a) \<le> 64"
  shows "(ucast bound :: u64) = 0 \<longleftrightarrow> bound = 0"
  using unat_ucast_bound[OF assms, of bound] by (metis unat_eq_0)

lemma unat_threshold:
  fixes b :: u64
  assumes "b \<noteq> 0"
  shows "unat ((0 - b) mod b) = 2 ^ 64 mod unat b"
proof -
  have pos: "0 < unat b" using assms by (simp add: unat_gt_0)
  have "unat (0 - b) = 2 ^ 64 - unat b"
    using pos unat_sub_if_size[of 0 b] by (simp add: word_size)
  then have "unat ((0 - b) mod b) = (2 ^ 64 - unat b) mod unat b"
    by (simp only: unat_mod)
  also have "\<dots> = 2 ^ 64 mod unat b" using u64_lt[of b] by (simp add: le_mod_geq)
  finally show ?thesis .
qed

lemma unat_ucast_u128: "unat (ucast (x :: u64) :: u128) = unat x"
proof -
  have "unat x < 2 ^ 128" using u64_lt[of x] by (rule less_trans) simp
  then show ?thesis by (simp add: unsigned_ucast_eq take_bit_nat_eq_self)
qed

lemma unat_wide_product:
  "unat ((ucast (x :: u64) :: u128) * ucast (b :: u64)) = unat x * unat b"
proof -
  have "unat x * unat b < 2 ^ 64 * 2 ^ 64"
    using u64_lt[of x] u64_lt[of b] by (intro mult_strict_mono) simp_all
  then have "unat (ucast x :: u128) * unat (ucast b :: u128) < 2 ^ LENGTH(128)"
    by (simp add: unat_ucast_u128)
  then have "unat ((ucast x :: u128) * ucast b) = unat (ucast x :: u128) * unat (ucast b :: u128)"
    by (simp only: unat_mult_lem)
  then show ?thesis by (simp only: unat_ucast_u128)
qed

lemma wide_low:
  "unat (ucast ((ucast (x :: u64) :: u128) * ucast (b :: u64)) :: u64) = (unat x * unat b) mod 2 ^ 64"
  by (simp add: unsigned_ucast_eq unat_wide_product take_bit_eq_mod)

lemma wide_high:
  "(ucast (drop_bit 64 ((ucast (x :: u64) :: u128) * ucast (b :: u64))) :: 'a::len word)
     = word_of_nat ((unat x * unat b) div 2 ^ 64)"
proof -
  have "(ucast (drop_bit 64 ((ucast x :: u128) * ucast b)) :: 'a word)
      = word_of_nat (unat (drop_bit 64 ((ucast x :: u128) * ucast b)))"
    by simp
  also have "unat (drop_bit 64 ((ucast x :: u128) * ucast b)) = drop_bit 64 (unat x * unat b)"
    by (simp only: unat_drop_bit_eq unat_wide_product)
  also have "drop_bit 64 (unat x * unat b) = (unat x * unat b) div 2 ^ 64"
    by (rule drop_bit_eq_div)
  finally show ?thesis .
qed

lemma umul128_low: "unat (fst (umul128 x b)) = (unat x * unat b) mod 2 ^ 64"
  by (simp add: umul128_def unat_word_ariths)

lemma umul128_high:
  "(ucast (snd (umul128 x b)) :: 'a::len word) = word_of_nat ((unat x * unat b) div 2 ^ 64)"
proof -
  have "unat x * unat b < 2 ^ 64 * 2 ^ 64"
    using u64_lt[of x] u64_lt[of b] by (intro mult_strict_mono) simp_all
  then have "(unat x * unat b) div 2 ^ 64 < 2 ^ 64"
    by (simp add: div_less_iff_less_mult)
  then have "unat (word_of_nat ((unat x * unat b) div 2 ^ 64) :: u64) = (unat x * unat b) div 2 ^ 64"
    by (simp add: unat_of_nat)
  then have "word_of_nat (unat (snd (umul128 x b))) = (word_of_nat ((unat x * unat b) div 2 ^ 64) :: 'a word)"
    by (simp add: umul128_def)
  then show ?thesis by simp
qed

lemma high_lt:
  assumes "0 < unat b"
  shows "(unat (x::u64) * unat (b::u64)) div 2 ^ 64 < unat b"
proof -
  have "unat x * unat b < 2 ^ 64 * unat b"
    using u64_lt[of x] assms by simp
  then show ?thesis by (simp add: div_less_iff_less_mult mult.commute)
qed

lemma try_draw_wide:
  assumes "p \<noteq> Portable"
  shows "(try_draw p b t x :: 'a::len word option) =
           (if unat t \<le> (unat x * unat b) mod 2 ^ 64
            then Some (word_of_nat ((unat x * unat b) div 2 ^ 64)) else None)"
proof (cases p)
  case Int128
  have "t \<le> ucast ((ucast x :: u128) * ucast b) \<longleftrightarrow> unat t \<le> (unat x * unat b) mod 2 ^ 64"
    by (simp only: word_le_nat_alt wide_low)
  then show ?thesis using Int128 by (simp only: try_draw.simps Let_def wide_high)
next
  case Umul128
  have "t \<le> fst (umul128 x b) \<longleftrightarrow> unat t \<le> (unat x * unat b) mod 2 ^ 64"
    by (simp only: word_le_nat_alt umul128_low)
  then show ?thesis using Umul128 umul128_high[of x b, where 'a = 'a]
    by (simp add: case_prod_unfold del: of_nat_mult of_nat_div)
next
  case Portable
  with assms show ?thesis by simp
qed

lemma unat_limit:
  fixes b :: u64
  shows "unat ((uint64_max div b) * b) = ((2 ^ 64 - 1) div unat b) * unat b"
proof -
  have m: "unat uint64_max = 2 ^ 64 - 1" by (simp add: uint64_max_def)
  have d: "unat (uint64_max div b) = (2 ^ 64 - 1) div unat b" by (simp only: unat_div m)
  have "((2 ^ 64 - 1) div unat b) * unat b \<le> (2 ^ 64 - 1 :: nat)"
    by (rule div_times_less_eq_dividend)
  also have "\<dots> < 2 ^ LENGTH(64)" by simp
  finally have "unat (uint64_max div b) * unat b < 2 ^ LENGTH(64)" by (simp only: d)
  then have "unat ((uint64_max div b) * b) = unat (uint64_max div b) * unat b"
    by (simp only: unat_mult_lem)
  then show ?thesis by (simp only: d)
qed

lemma try_draw_portable:
  "(try_draw Portable b t x :: 'a::len word option) =
     (if unat x < ((2 ^ 64 - 1) div unat b) * unat b
      then Some (word_of_nat (unat x mod unat b)) else None)"
proof -
  have "x < (uint64_max div b) * b \<longleftrightarrow> unat x < ((2 ^ 64 - 1) div unat b) * unat b"
    by (simp only: word_less_nat_alt unat_limit)
  moreover have "(ucast (x mod b) :: 'a word) = word_of_nat (unat x mod unat b)"
  proof -
    have "(ucast (x mod b) :: 'a word) = word_of_nat (unat (x mod b))" by simp
    also have "unat (x mod b) = unat x mod unat b" by (rule unat_mod)
    finally show ?thesis .
  qed
  ultimately show ?thesis by (simp only: try_draw.simps Let_def)
qed

text \<open>The sampler, unfolded by one draw: it returns what the draw yields, or goes on
  from the advanced generator.\<close>

lemma uniform_bounded_step:
  assumes "bound \<noteq> 0"
  shows "uniform_bounded p rng bound =
           (case draw_result p bound (fst (next_u64 rng)) of
              Some v \<Rightarrow> Some (v, snd (next_u64 rng))
            | None \<Rightarrow> uniform_bounded p (snd (next_u64 rng)) bound)"
proof (cases "bound AND (bound - 1) = 0")
  case True
  with assms show ?thesis
    by (simp add: uniform_bounded_def draw_result_def split: prod.splits)
next
  case False
  define b where "b = (ucast bound :: u64)"
  define t where "t = (0 - b) mod b"
  have loop: "uniform_bounded p g bound = rejection_loop p b t g" for g
    using assms False by (simp add: uniform_bounded_def b_def t_def Let_def)
  have dr: "draw_result p bound x = try_draw p b t x" for x
    using False by (simp add: draw_result_def b_def t_def)
  show ?thesis
    by (simp only: loop dr) (subst rejection_loop.simps, simp split: prod.splits option.splits)
qed

text \<open>
  C4. For a non-zero bound the threshold \<open>(0 - b) % b\<close>, computed with 64-bit
  wrap-around, is \<open>2^64 mod bound\<close>. On the wide-multiply builds, for a bound that is
  not a power of two, the draw \<open>x\<close> is accepted exactly when the low 64 bits of
  \<open>x * bound\<close> reach the threshold; the high 64 bits are then returned (they are less
  than the bound, so the cast back to \<open>UInt\<close> loses nothing), and otherwise the
  sampler draws again.
\<close>

theorem rejection_threshold:
  fixes bound :: "'a::len word"
  assumes "LENGTH('a) \<le> 64" and "bound \<noteq> 0"
  shows "unat ((0 - (ucast bound :: u64)) mod ucast bound) = 2 ^ 64 mod unat bound \<and>
         (\<not> is_pow2 bound \<longrightarrow> p \<noteq> Portable \<longrightarrow>
            (unat (fst (next_u64 rng)) * unat bound) div 2 ^ 64 < unat bound \<and>
            uniform_bounded p rng bound =
              (if 2 ^ 64 mod unat bound \<le> (unat (fst (next_u64 rng)) * unat bound) mod 2 ^ 64
               then Some (word_of_nat ((unat (fst (next_u64 rng)) * unat bound) div 2 ^ 64),
                          snd (next_u64 rng))
               else uniform_bounded p (snd (next_u64 rng)) bound))"
proof -
  have nz: "(ucast bound :: u64) \<noteq> 0" using assms by (simp add: ucast_eq_0_iff)
  have ub: "unat (ucast bound :: u64) = unat bound" using assms(1) by (rule unat_ucast_bound)
  have thr: "unat ((0 - (ucast bound :: u64)) mod ucast bound) = 2 ^ 64 mod unat bound"
    using unat_threshold[OF nz] by (simp only: ub)
  have hi: "(unat (fst (next_u64 rng)) * unat bound) div 2 ^ 64 < unat bound"
    using high_lt[of "ucast bound :: u64" "fst (next_u64 rng)"] assms(2)
    by (simp add: ub unat_gt_0)
  have "uniform_bounded p rng bound =
              (if 2 ^ 64 mod unat bound \<le> (unat (fst (next_u64 rng)) * unat bound) mod 2 ^ 64
               then Some (word_of_nat ((unat (fst (next_u64 rng)) * unat bound) div 2 ^ 64),
                          snd (next_u64 rng))
               else uniform_bounded p (snd (next_u64 rng)) bound)"
    if "\<not> is_pow2 bound" "p \<noteq> Portable"
  proof -
    from that(1) assms(2) have "bound AND (bound - 1) \<noteq> 0" by (simp add: is_pow2_iff)
    then have "draw_result p bound x = try_draw p (ucast bound) ((0 - ucast bound) mod ucast bound) x" for x
      by (simp add: draw_result_def)
    then have "draw_result p bound x =
        (if 2 ^ 64 mod unat bound \<le> (unat x * unat bound) mod 2 ^ 64
         then Some (word_of_nat ((unat x * unat bound) div 2 ^ 64)) else None)" for x
      by (simp only: try_draw_wide[OF that(2)] thr ub)
    then show ?thesis
      by (subst uniform_bounded_step[OF assms(2)]) (simp del: of_nat_mult of_nat_div)
  qed
  with thr hi show ?thesis by blast
qed


theorem rejection_threshold_witness:
  "LENGTH(32) \<le> 64 \<and> (37 :: u32) \<noteq> 0 \<and> \<not> is_pow2 (37 :: u32) \<and> Int128 \<noteq> Portable \<and>
   unat ((0 - (ucast (37 :: u32) :: u64)) mod ucast (37 :: u32)) = 2 ^ 64 mod unat (37 :: u32) \<and>
   uniform_bounded Int128 (seed_with xoshiro256ss_default 1337) (37 :: u32) =
     Some (25, \<lparr>s0 = 780789842307147680, s1 = 5302844761966939800,
                s2 = 15167730814454631249, s3 = 4104318094312297255\<rparr>)"
proof -
  have h1: "LENGTH(32) \<le> 64" by simp
  have h2: "(37 :: u32) \<noteq> 0" by simp
  have h3: "\<not> is_pow2 (37 :: u32)" by (simp add: is_pow2_iff)
  have h4: "Int128 \<noteq> Portable" by simp
  show ?thesis
    using h1 h2 h3 h4 rejection_threshold [OF h1 h2, of Int128 "seed_with xoshiro256ss_default 1337"]
    by (simp add: seeded_1337 draw_1337)
qed

section \<open>Counting the accepted draws\<close>

text \<open>Multiples of \<open>b\<close> in a window whose length is a multiple of \<open>b\<close>, residues
  below a multiple of \<open>b\<close>, and the passage from 64-bit words to the numbers below
  \<open>2^64\<close>.\<close>

lemma ceil_le:
  fixes b :: nat
  assumes "0 < b"
  shows "M \<le> x * b \<longleftrightarrow> (M + b - 1) div b \<le> x"
proof -
  have "(M + b - 1) div b \<le> x \<longleftrightarrow> (M + b - 1) div b < Suc x" by auto
  also have "\<dots> \<longleftrightarrow> M + b - 1 < Suc x * b" using assms by (rule div_less_iff_less_mult)
  also have "\<dots> \<longleftrightarrow> M \<le> x * b" using assms by auto
  finally show ?thesis by simp
qed

lemma card_multiples:
  fixes b :: nat
  assumes "0 < b"
  shows "card {x. L \<le> x * b \<and> x * b < L + q * b} = q"
proof -
  define c where "c = (L + b - 1) div b"
  have shift: "(d + q * b) div b = d div b + q" for d using assms by simp
  have "L + q * b + b - 1 = (L + b - 1) + q * b" using assms by simp
  then have "(L + q * b + b - 1) div b = c + q"
    by (simp only: c_def shift)
  with ceil_le[OF assms, of "L + q * b"] ceil_le[OF assms, of L]
  have "{x. L \<le> x * b \<and> x * b < L + q * b} = {c..<c + q}"
    by (auto simp: c_def not_le[symmetric])
  then show ?thesis by simp
qed

lemma card_residues:
  fixes b :: nat
  assumes "v < b"
  shows "card {x. x < q * b \<and> x mod b = v} = q"
proof -
  have "{x. x < q * b \<and> x mod b = v} = (\<lambda>j. j * b + v) ` {..<q}"
  proof (intro equalityI subsetI)
    fix x assume "x \<in> {x. x < q * b \<and> x mod b = v}"
    then have x: "x < q * b" "x mod b = v" by simp_all
    have "x = (x div b) * b + v" using x(2) by (metis div_mult_mod_eq)
    moreover have "x div b < q" using x(1) assms by (simp add: div_less_iff_less_mult)
    ultimately show "x \<in> (\<lambda>j. j * b + v) ` {..<q}" by blast
  next
    fix x assume "x \<in> (\<lambda>j. j * b + v) ` {..<q}"
    then obtain j where j: "j < q" "x = j * b + v" by blast
    have "j * b + v < Suc j * b" using assms by simp
    also have "\<dots> \<le> q * b" using j(1) by (intro mult_le_mono1) simp
    finally have "x < q * b" using j(2) by simp
    moreover have "x mod b = v" using j(2) assms by simp
    ultimately show "x \<in> {x. x < q * b \<and> x mod b = v}" by simp
  qed
  moreover have "inj_on (\<lambda>j. j * b + v) {..<q}"
    using assms by (auto simp: inj_on_def)
  ultimately show ?thesis by (simp add: card_image)
qed

lemma card_word_nat:
  "card {x :: u64. P (unat x)} = card {n. n < 2 ^ 64 \<and> P n}"
proof -
  have "{n. n < 2 ^ 64 \<and> P n} = unat ` {x :: u64. P (unat x)}"
  proof (intro equalityI subsetI)
    fix n assume "n \<in> {n. n < 2 ^ 64 \<and> P n}"
    then have n: "n < 2 ^ 64" "P n" by simp_all
    then have "unat (word_of_nat n :: u64) = n" by (simp add: unat_of_nat)
    with n(2) show "n \<in> unat ` {x :: u64. P (unat x)}" by (metis (mono_tags, lifting) imageI mem_Collect_eq)
  next
    fix n assume "n \<in> unat ` {x :: u64. P (unat x)}"
    then obtain x :: u64 where "n = unat x" "P (unat x)" by blast
    then show "n \<in> {n. n < 2 ^ 64 \<and> P n}" using u64_lt[of x] by simp
  qed
  moreover have "inj_on unat {x :: u64. P (unat x)}"
    by (rule inj_onI) (simp add: word_unat_eq_iff)
  ultimately show ?thesis by (simp add: card_image)
qed

lemma dvd_pow2_char: "(n::nat) dvd 2 ^ m \<Longrightarrow> \<exists>k. n = 2 ^ k"
proof (induction m arbitrary: n)
  case 0
  then have "n = 2 ^ 0" by simp
  then show ?case by blast
next
  case (Suc m)
  show ?case
  proof (cases "even n")
    case True
    then obtain c where c: "n = 2 * c" by (elim evenE)
    with Suc.prems have "c dvd 2 ^ m" by simp
    with Suc.IH obtain k where "c = 2 ^ k" by blast
    with c have "n = 2 ^ Suc k" by simp
    then show ?thesis by blast
  next
    case False
    then have "coprime n 2" by simp
    with Suc.prems have "n dvd 2 ^ m" by (simp add: coprime_dvd_mult_right_iff)
    with Suc.IH show ?thesis by blast
  qed
qed

lemma window_iff:
  fixes W :: nat
  assumes "0 < W"
  shows "t \<le> n mod W \<and> n div W = V \<longleftrightarrow> V * W + t \<le> n \<and> n < V * W + W"
proof
  assume a: "t \<le> n mod W \<and> n div W = V"
  have "n = V * W + n mod W" using a by (metis div_mult_mod_eq)
  moreover have "n mod W < W" using assms by simp
  ultimately show "V * W + t \<le> n \<and> n < V * W + W" using a by linarith
next
  assume a: "V * W + t \<le> n \<and> n < V * W + W"
  then have d: "n div W = V" by (intro div_nat_eqI) (simp_all add: mult.commute)
  have "n = V * W + n mod W" using d by (metis div_mult_mod_eq)
  with a d show "t \<le> n mod W \<and> n div W = V" by linarith
qed

lemma pred_div_eq:
  fixes W B :: nat
  assumes "0 < B" "\<not> B dvd W"
  shows "(W - 1) div B = W div B"
proof -
  have m: "0 < W mod B" using assms(2) by (simp add: dvd_eq_mod_eq_0)
  have "W = (W div B) * B + W mod B" by simp
  then have "W - 1 = (W div B) * B + (W mod B - 1)" using m by linarith
  moreover have "W mod B - 1 < B" using assms(1) m by (meson less_imp_diff_less mod_less_divisor)
  ultimately show ?thesis by (metis div_mult_self3 div_less add.right_neutral assms(1) less_numeral_extra(3) add.commute)
qed

lemma word_of_nat_eq_iff:
  fixes v :: "'a::len word"
  assumes "n < 2 ^ LENGTH('a)"
  shows "word_of_nat n = v \<longleftrightarrow> n = unat v"
proof
  assume "word_of_nat n = v"
  then have "unat v = n mod 2 ^ LENGTH('a)" by (auto simp: unat_of_nat)
  with assms show "n = unat v" by simp
next
  assume "n = unat v"
  then show "word_of_nat n = v" by simp
qed

subsection \<open>The wide-multiply bodies\<close>

lemma not_pow2_not_dvd:
  fixes bound :: "'a::len word"
  assumes "bound \<noteq> 0" "\<not> is_pow2 bound"
  shows "\<not> unat bound dvd 2 ^ 64"
proof
  assume "unat bound dvd 2 ^ 64"
  then obtain k where k: "unat bound = 2 ^ k" using dvd_pow2_char by blast
  have "unat bound < 2 ^ LENGTH('a)" by (rule unsigned_less)
  with k have kl: "k < LENGTH('a)" by simp
  have "bound = word_of_nat (unat bound)" by simp
  also have "\<dots> = 2 ^ k" by (simp only: k) simp
  finally have "is_pow2 bound" using kl by (auto simp: is_pow2_def)
  with assms(2) show False by simp
qed

lemma draw_result_wide:
  fixes bound v :: "'a::len word"
  assumes len: "LENGTH('a) \<le> 64" and nz: "bound \<noteq> 0" and np: "\<not> is_pow2 bound"
    and p: "p \<noteq> Portable"
  shows "draw_result p bound x = Some v \<longleftrightarrow>
           2 ^ 64 mod unat bound \<le> (unat x * unat bound) mod 2 ^ 64 \<and>
           (unat x * unat bound) div 2 ^ 64 = unat v"
proof -
  have nzb: "(ucast bound :: u64) \<noteq> 0" using len nz by (simp add: ucast_eq_0_iff)
  have ub: "unat (ucast bound :: u64) = unat bound" using len by (rule unat_ucast_bound)
  have thr: "unat ((0 - (ucast bound :: u64)) mod ucast bound) = 2 ^ 64 mod unat bound"
    using unat_threshold[OF nzb] by (simp only: ub)
  have "(unat x * unat bound) div 2 ^ 64 < unat bound"
    using high_lt[of "ucast bound :: u64" x] nz by (simp add: ub unat_gt_0)
  also have "unat bound < 2 ^ LENGTH('a)" by (rule unsigned_less)
  finally have small: "(unat x * unat bound) div 2 ^ 64 < 2 ^ LENGTH('a)" .
  from np nz have "bound AND (bound - 1) \<noteq> 0" by (simp add: is_pow2_iff)
  then have "draw_result p bound x =
      (if 2 ^ 64 mod unat bound \<le> (unat x * unat bound) mod 2 ^ 64
       then Some (word_of_nat ((unat x * unat bound) div 2 ^ 64)) else None)"
    by (simp only: draw_result_def if_False try_draw_wide[OF p] thr ub)
  then show ?thesis
    using word_of_nat_eq_iff[OF small, of v] by (simp del: of_nat_mult of_nat_div)
qed

lemma accept_count_wide:
  fixes bound v :: "'a::len word"
  assumes len: "LENGTH('a) \<le> 64" and nz: "bound \<noteq> 0" and np: "\<not> is_pow2 bound"
    and p: "p \<noteq> Portable" and v: "v < bound"
  shows "accept_count p bound v = 2 ^ 64 div unat bound"
proof -
  define B where "B = unat bound"
  define V where "V = unat v"
  define W :: nat where "W = 2 ^ 64"
  define L where "L = V * W + W mod B"
  have B0: "0 < B" using nz by (simp add: B_def unat_gt_0)
  have VB: "V < B" using v by (simp add: V_def B_def word_less_nat_alt)
  have W0: "0 < W" by (simp add: W_def)
  have split: "V * W + W = L + (W div B) * B"
    by (simp add: L_def)
  have iff: "draw_result p bound x = Some v \<longleftrightarrow>
               L \<le> unat x * B \<and> unat x * B < L + (W div B) * B" for x
    using draw_result_wide[OF len nz np p, of x v] window_iff[OF W0, of "W mod B" "unat x * B" V]
    by (simp only: B_def[symmetric] V_def[symmetric] W_def[symmetric] L_def[symmetric] split)
  have inW: "n < W" if "n * B < L + (W div B) * B" for n
  proof -
    have "n * B < V * W + W" using that by (simp only: split)
    also have "\<dots> = Suc V * W" by simp
    also have "\<dots> \<le> B * W" using VB by (intro mult_le_mono1) simp
    finally have "n * B < W * B" by (simp add: mult.commute)
    then show ?thesis by simp
  qed
  have "accept_count p bound v = card {x :: u64. L \<le> unat x * B \<and> unat x * B < L + (W div B) * B}"
    by (simp only: accept_count_def iff)
  also have "\<dots> = card {n. n < 2 ^ 64 \<and> (L \<le> n * B \<and> n * B < L + (W div B) * B)}"
    by (rule card_word_nat[of "\<lambda>n. L \<le> n * B \<and> n * B < L + (W div B) * B"])
  also have "{n. n < 2 ^ 64 \<and> (L \<le> n * B \<and> n * B < L + (W div B) * B)}
      = {n. L \<le> n * B \<and> n * B < L + (W div B) * B}"
    using inW by (auto simp: W_def)
  also have "card \<dots> = W div B" using B0 by (rule card_multiples)
  finally show ?thesis by (simp only: W_def B_def)
qed

subsection \<open>The portable body and the mask path\<close>

lemma draw_result_portable:
  fixes bound v :: "'a::len word"
  assumes len: "LENGTH('a) \<le> 64" and nz: "bound \<noteq> 0" and np: "\<not> is_pow2 bound"
  shows "draw_result Portable bound x = fallback_spec bound x"
proof -
  have ub: "unat (ucast bound :: u64) = unat bound" using len by (rule unat_ucast_bound)
  have B0: "0 < unat bound" using nz by (simp add: unat_gt_0)
  have q: "(2 ^ 64 - 1) div unat bound = 2 ^ 64 div unat bound"
    using B0 not_pow2_not_dvd[OF nz np] by (rule pred_div_eq)
  from np nz have "bound AND (bound - 1) \<noteq> 0" by (simp add: is_pow2_iff)
  then show ?thesis
    by (simp only: draw_result_def if_False try_draw_portable ub q fallback_spec_def)
qed

lemma fallback_spec_iff:
  fixes bound v :: "'a::len word"
  assumes nz: "bound \<noteq> 0"
  shows "fallback_spec bound x = Some v \<longleftrightarrow>
           unat x < (2 ^ 64 div unat bound) * unat bound \<and> unat x mod unat bound = unat v"
proof -
  have "unat x mod unat bound < unat bound" using nz by (simp add: unat_gt_0)
  also have "unat bound < 2 ^ LENGTH('a)" by (rule unsigned_less)
  finally have small: "unat x mod unat bound < 2 ^ LENGTH('a)" .
  show ?thesis
    using word_of_nat_eq_iff[OF small, of v]
    by (simp add: fallback_spec_def del: of_nat_mod)
qed

lemma accept_count_portable:
  fixes bound v :: "'a::len word"
  assumes len: "LENGTH('a) \<le> 64" and nz: "bound \<noteq> 0" and np: "\<not> is_pow2 bound"
    and v: "v < bound"
  shows "accept_count Portable bound v = 2 ^ 64 div unat bound"
proof -
  define B where "B = unat bound"
  define q :: nat where "q = 2 ^ 64 div B"
  have VB: "unat v < B" using v by (simp add: B_def word_less_nat_alt)
  have qB: "q * B \<le> 2 ^ 64" by (simp add: q_def)
  have iff: "draw_result Portable bound x = Some v \<longleftrightarrow> unat x < q * B \<and> unat x mod B = unat v" for x
    by (simp only: draw_result_portable[OF len nz np] fallback_spec_iff[OF nz] q_def B_def)
  have "accept_count Portable bound v = card {x :: u64. unat x < q * B \<and> unat x mod B = unat v}"
    by (simp only: accept_count_def iff)
  also have "\<dots> = card {n. n < 2 ^ 64 \<and> (n < q * B \<and> n mod B = unat v)}"
    by (rule card_word_nat[of "\<lambda>n. n < q * B \<and> n mod B = unat v"])
  also have "{n. n < 2 ^ 64 \<and> (n < q * B \<and> n mod B = unat v)} = {n. n < q * B \<and> n mod B = unat v}"
    using qB by auto
  also have "card \<dots> = q" using VB by (rule card_residues)
  finally show ?thesis by (simp only: q_def B_def)
qed

lemma unat_pow2:
  assumes "k < LENGTH('a::len)"
  shows "unat (2 ^ k :: 'a word) = 2 ^ k"
proof -
  have "unat (word_of_nat (2 ^ k) :: 'a word) = 2 ^ k mod 2 ^ LENGTH('a)" by (rule unat_of_nat)
  also have "\<dots> = 2 ^ k" using assms by simp
  finally show ?thesis by simp
qed

lemma ucast_pow2:
  assumes "k < LENGTH('a::len)"
  shows "(ucast (2 ^ k :: 'a word) :: u64) = 2 ^ k"
proof -
  have "(ucast (2 ^ k :: 'a word) :: u64) = word_of_nat (unat (2 ^ k :: 'a word))" by simp
  also have "\<dots> = word_of_nat (2 ^ k)" by (simp only: unat_pow2[OF assms])
  finally show ?thesis by simp
qed

lemma draw_result_mask:
  fixes v :: "'a::len word"
  assumes len: "LENGTH('a) \<le> 64" and k: "k < LENGTH('a)"
  shows "draw_result p (2 ^ k :: 'a word) x = Some v \<longleftrightarrow> unat x mod 2 ^ k = unat v"
proof -
  have c: "(2 ^ k :: 'a word) AND (2 ^ k - 1) = 0" by (rule pow2_and)
  have m: "x AND ((2 ^ k :: u64) - 1) = take_bit k x"
    by (simp only: mask_eq_exp_minus_1[symmetric] take_bit_eq_mask)
  have "draw_result p (2 ^ k :: 'a word) x
          = Some (ucast (x AND ((ucast (2 ^ k :: 'a word) :: u64) - 1)))"
    unfolding draw_result_def using c by (rule if_P)
  then have dr: "draw_result p (2 ^ k :: 'a word) x = Some (ucast (take_bit k x))"
    by (simp only: ucast_pow2[OF k] m)
  have "unat (ucast (take_bit k x) :: 'a word) = take_bit k (take_bit LENGTH('a) (unat x))"
    by (simp only: unsigned_ucast_eq unsigned_take_bit_eq)
  also have "\<dots> = take_bit k (unat x)" using k by (simp add: min_def)
  also have "\<dots> = unat x mod 2 ^ k" by (rule take_bit_eq_mod)
  finally have "unat (ucast (take_bit k x) :: 'a word) = unat x mod 2 ^ k" .
  then show ?thesis by (simp only: dr option.inject word_unat_eq_iff)
qed

lemma accept_count_mask:
  fixes bound v :: "'a::len word"
  assumes len: "LENGTH('a) \<le> 64" and pw: "is_pow2 bound" and v: "v < bound"
  shows "accept_count p bound v = 2 ^ 64 div unat bound"
proof -
  from pw obtain k where k: "k < LENGTH('a)" and b: "bound = 2 ^ k" by (auto simp: is_pow2_def)
  have ub: "unat bound = 2 ^ k" using unat_pow2[OF k] b by simp
  have k64: "k \<le> 64" using k len by simp
  have VB: "unat v < 2 ^ k" using v ub by (simp add: word_less_nat_alt)
  have W: "(2::nat) ^ (64 - k) * 2 ^ k = 2 ^ 64" using k64 by (simp add: power_add[symmetric])
  have "accept_count p bound v = card {x :: u64. unat x mod 2 ^ k = unat v}"
    by (simp only: accept_count_def b draw_result_mask[OF len k])
  also have "\<dots> = card {n. n < 2 ^ 64 \<and> n mod 2 ^ k = unat v}"
    by (rule card_word_nat[of "\<lambda>n. n mod 2 ^ k = unat v"])
  also have "\<dots> = card {n. n < 2 ^ (64 - k) * 2 ^ k \<and> n mod 2 ^ k = unat v}"
    by (simp only: W)
  also have "\<dots> = 2 ^ (64 - k)" using VB by (rule card_residues)
  also have "\<dots> = 2 ^ 64 div 2 ^ k" using k64 by (simp add: power_diff)
  finally show ?thesis by (simp only: ub)
qed

section \<open>Exact uniformity\<close>

text \<open>An accepted draw is always mapped below the bound.\<close>

lemma draw_result_in_range:
  fixes bound r :: "'a::len word"
  assumes len: "LENGTH('a) \<le> 64" and nz: "bound \<noteq> 0"
    and dr: "draw_result p bound x = Some r"
  shows "r < bound"
proof (cases "is_pow2 bound")
  case True
  then obtain k where k: "k < LENGTH('a)" and b: "bound = 2 ^ k" by (auto simp: is_pow2_def)
  from dr have "unat x mod 2 ^ k = unat r" by (simp only: b draw_result_mask[OF len k])
  then have "unat r < 2 ^ k" by (metis mod_less_divisor zero_less_numeral zero_less_power)
  then show ?thesis by (simp add: word_less_nat_alt b unat_pow2[OF k])
next
  case False
  have B0: "0 < unat bound" using nz by (simp add: unat_gt_0)
  have ub: "unat (ucast bound :: u64) = unat bound" using len by (rule unat_ucast_bound)
  show ?thesis
  proof (cases "p = Portable")
    case True
    from dr have "unat x mod unat bound = unat r"
      by (simp only: True draw_result_portable[OF len nz False] fallback_spec_iff[OF nz])
    then have "unat r < unat bound" using B0 by (metis mod_less_divisor)
    then show ?thesis by (simp add: word_less_nat_alt)
  next
    case np: False
    from dr have "(unat x * unat bound) div 2 ^ 64 = unat r"
      by (simp only: draw_result_wide[OF len nz False np])
    moreover have "(unat x * unat bound) div 2 ^ 64 < unat bound"
      using high_lt[of "ucast bound :: u64" x] B0 by (simp only: ub)
    ultimately show ?thesis by (simp add: word_less_nat_alt)
  qed
qed

text \<open>
  C1. For every bound greater than 0 and every value \<open>v\<close> below the bound, the number
  of 64-bit draws that the sampler accepts and maps to \<open>v\<close> is
  \<open>floor(2^64 / bound)\<close>, hence the same for every such \<open>v\<close>: on the mask path of
  the powers of two and on the rejection path of each build. No draw is mapped to a
  value outside \<open>[0, bound)\<close>, and the sampler itself returns what the first accepted
  draw is mapped to.
\<close>

theorem uniform_bounded_exactly_uniform:
  fixes bound v :: "'a::len word"
  assumes "LENGTH('a) \<le> 64" and "bound \<noteq> 0" and "v < bound"
  shows "uniform_bounded p rng bound =
           (case draw_result p bound (fst (next_u64 rng)) of
              Some r \<Rightarrow> Some (r, snd (next_u64 rng))
            | None \<Rightarrow> uniform_bounded p (snd (next_u64 rng)) bound) \<and>
         accept_count p bound v = 2 ^ 64 div unat bound \<and>
         (\<forall>w. w < bound \<longrightarrow> accept_count p bound w = accept_count p bound v) \<and>
         (\<forall>x r. draw_result p bound x = Some r \<longrightarrow> r < bound)"
proof -
  have rng: "r < bound" if "draw_result p bound x = Some r" for x r
    using assms(1,2) that by (rule draw_result_in_range)
  have cnt: "accept_count p bound w = 2 ^ 64 div unat bound" if "w < bound" for w
  proof (cases "is_pow2 bound")
    case True
    with assms(1) that show ?thesis by (intro accept_count_mask)
  next
    case False
    show ?thesis
    proof (cases "p = Portable")
      case True
      show ?thesis unfolding True
        by (rule accept_count_portable[OF assms(1,2) False that])
    next
      case np: False
      with assms(1,2) False that show ?thesis by (intro accept_count_wide)
    qed
  qed
  from cnt[OF assms(3)] cnt rng uniform_bounded_step[OF assms(2), of p rng]
  show ?thesis by simp
qed

theorem uniform_bounded_exactly_uniform_witness:
  "LENGTH(32) \<le> 64 \<and> (6 :: u32) \<noteq> 0 \<and> (0 :: u32) < 6 \<and> (5 :: u32) < 6 \<and>
   accept_count Int128 (6 :: u32) 0 = 3074457345618258602 \<and>
   accept_count Int128 (6 :: u32) 5 = accept_count Int128 (6 :: u32) 0"
proof -
  have h1: "LENGTH(32) \<le> 64" by simp
  have h2: "(6 :: u32) \<noteq> 0" by simp
  have h3: "(0 :: u32) < 6" by simp
  have h4: "(5 :: u32) < 6" by simp
  show ?thesis
    using h1 h2 h3 h4 uniform_bounded_exactly_uniform [OF h1 h2 h3, of Int128 xoshiro256ss_default]
    by simp
qed

text \<open>
  C6. For a bound greater than 0 that is not a power of two, the portable loop body is
  the fallback of the specification (the limit \<open>(UINT64_MAX / b) * b\<close> of the code is
  \<open>floor(2^64 / bound) * bound\<close>), and for every value \<open>v\<close> below the bound it
  accepts and maps to \<open>v\<close> as many draws as the wide-multiply bodies do.
\<close>

theorem fallback_same_distribution:
  fixes bound v :: "'a::len word"
  assumes "LENGTH('a) \<le> 64" and "bound \<noteq> 0" and "\<not> is_pow2 bound" and "v < bound"
  shows "draw_result Portable bound x = fallback_spec bound x \<and>
         accept_count Portable bound v = accept_count Int128 bound v \<and>
         accept_count Portable bound v = accept_count Umul128 bound v"
  using draw_result_portable[OF assms(1,2,3), of x] accept_count_portable[OF assms]
    accept_count_wide[OF assms(1,2,3) _ assms(4), of Int128]
    accept_count_wide[OF assms(1,2,3) _ assms(4), of Umul128]
  by simp

theorem fallback_same_distribution_witness:
  "LENGTH(32) \<le> 64 \<and> (7 :: u32) \<noteq> 0 \<and> \<not> is_pow2 (7 :: u32) \<and> (3 :: u32) < 7 \<and>
   draw_result Portable (7 :: u32) 12468955128717782748 = Some 4 \<and>
   accept_count Portable (7 :: u32) 3 = accept_count Int128 (7 :: u32) 3 \<and>
   accept_count Portable (7 :: u32) 3 = accept_count Umul128 (7 :: u32) 3"
proof -
  have h1: "LENGTH(32) \<le> 64" by simp
  have h2: "(7 :: u32) \<noteq> 0" by simp
  have h3: "\<not> is_pow2 (7 :: u32)" by (simp add: is_pow2_iff)
  have h4: "(3 :: u32) < 7" by simp
  show ?thesis
    using h1 h2 h3 h4 fallback_same_distribution [OF h1 h2 h3 h4, of 12468955128717782748]
    by (simp add: fallback_spec_def)
qed

end
